theory Spec2Isabelle
  imports
    Complex_Main
    "HOL-Library.Multiset"
    "HOL-Library.Char_ord"
    "HOL-Library.List_Lexorder"
    "HOL-Library.Product_Lexorder"
begin

section \<open>The latency ranking of best-invidious-server\<close>

text \<open>
  The repository has two Python files: \<^verbatim>\<open>app.py\<close>, a web application that ranks the
  Invidious instances by ping latency in a background task, and
  \<^verbatim>\<open>best-invidious-server.py\<close>, a script doing the same ranking once.  Python
  names that start with an underscore are written here with the prefix \<open>priv_\<close>
  (\<^verbatim>\<open>_iter_ping\<close> is \<open>priv_iter_ping\<close>); the functions of the script carry
  the prefix \<open>script_\<close>.

  Latencies are Python floats.  \<^verbatim>\<open>statistics.mean\<close> adds its data as exact fractions
  and rounds once at the end; the model keeps the exact value, so a latency is a
  rational number and the final rounding is not represented.
\<close>

subsection \<open>Exceptions\<close>

datatype error =
    StatisticsError      \<comment> \<open>\<^verbatim>\<open>statistics.mean\<close> of an empty list\<close>
  | URLError             \<comment> \<open>\<^verbatim>\<open>urllib.request.urlopen\<close> could not fetch the list\<close>
  | AttributeError       \<comment> \<open>\<^verbatim>\<open>.items()\<close> on a \<^verbatim>\<open>str\<close>\<close>
  | IndexError           \<comment> \<open>\<^verbatim>\<open>[...][0]\<close> or \<^verbatim>\<open>.split(...)[1]\<close> out of range\<close>
  | FileNotFoundError    \<comment> \<open>\<^verbatim>\<open>open('.cache.json')\<close> while the file is absent\<close>

subsection \<open>One ping\<close>

text \<open>
  \<^verbatim>\<open>ping3.ping\<close> is a library function: it answers the delay in seconds, \<^verbatim>\<open>None\<close>
  on a timeout and \<^verbatim>\<open>False\<close> on an error.  Its answers are the environment's; the
  program only tests them with \<^verbatim>\<open>if ms:\<close>, which is false for \<^verbatim>\<open>None\<close>,
  \<^verbatim>\<open>False\<close> and \<^verbatim>\<open>0.0\<close>.
\<close>

datatype ping_reply = Delay rat | NoReply | Failed

fun truthy :: "ping_reply \<Rightarrow> bool" where
  "truthy (Delay ms) = (ms \<noteq> 0)"
| "truthy NoReply = False"
| "truthy Failed = False"

fun seconds :: "ping_reply \<Rightarrow> rat" where
  "seconds (Delay ms) = ms"
| "seconds NoReply = 0"
| "seconds Failed = 0"

text \<open>\<^verbatim>\<open>statistics.mean(data)\<close> raises on an empty list.\<close>

definition mean :: "rat list \<Rightarrow> error + rat" where
  "mean data =
     (if data = [] then Inl StatisticsError
      else Inr (sum_list data / of_nat (length data)))"

subsection \<open>The prober: \<^verbatim>\<open>_iter_ping\<close>\<close>

text \<open>
  The loop \<^verbatim>\<open>for _ in range(count)\<close> of \<^verbatim>\<open>_iter_ping\<close>.  \<open>ping k\<close> is the
  answer to the \<open>k\<close>-th call of \<^verbatim>\<open>ping(server, timeout=timeout)\<close> made by this
  invocation; \<open>n\<close> iterations remain, \<open>k\<close> calls have been made.  The result is
  \<open>None\<close> when the loop left through the \<^verbatim>\<open>return\<close> in its body and
  \<open>Some local_results\<close> when it ran to its end, together with the number of calls
  of \<^verbatim>\<open>ping\<close> made.  The counter \<^verbatim>\<open>down\<close> is an integer; \<^verbatim>\<open>max_retries\<close> is
  whatever number the caller passed, an \<^verbatim>\<open>int\<close> or a \<^verbatim>\<open>float\<close>, and Python
  compares the two by value.
\<close>

fun ping_loop ::
  "(nat \<Rightarrow> ping_reply) \<Rightarrow> rat \<Rightarrow> nat \<Rightarrow> nat \<Rightarrow> rat list \<Rightarrow> int \<Rightarrow> rat list option \<times> nat"
where
  "ping_loop ping max_retries 0 k local_results down = (Some local_results, k)"
| "ping_loop ping max_retries (Suc n) k local_results down =
     (let ms = ping k in
      if truthy ms
      then ping_loop ping max_retries n (Suc k) (local_results @ [seconds ms]) down
      else if of_int (down + 1) > max_retries then (None, Suc k)
      else ping_loop ping max_retries n (Suc k) local_results (down + 1))"

text \<open>
  The value of \<^verbatim>\<open>_iter_ping\<close> is \<^verbatim>\<open>None\<close> or a pair \<^verbatim>\<open>(mean, server)\<close>, or the
  exception of \<^verbatim>\<open>statistics.mean\<close>; the second component counts the calls of
  \<^verbatim>\<open>ping\<close> against \<open>server\<close>.  \<^verbatim>\<open>range(count)\<close> is empty for
  \<^verbatim>\<open>count <= 0\<close>.  The parameter \<^verbatim>\<open>count\<close> is written \<open>cnt\<close> (\<open>count\<close> is a
  constant of the multiset library).
\<close>

type_synonym probe_result = "(error + (rat \<times> string) option) \<times> nat"

definition finish_ping :: "string \<Rightarrow> rat list option \<times> nat \<Rightarrow> probe_result" where
  "finish_ping server r =
     (case r of
        (None, calls) \<Rightarrow> (Inr None, calls)
      | (Some local_results, calls) \<Rightarrow>
          (case mean local_results of
             Inl e \<Rightarrow> (Inl e, calls)
           | Inr m \<Rightarrow> (Inr (Some (m, server)), calls)))"

text \<open>\<^verbatim>\<open>app.py\<close>, with the global \<^verbatim>\<open>skip_list\<close> as first argument.\<close>

definition priv_iter_ping ::
  "string list \<Rightarrow> (string \<Rightarrow> rat \<Rightarrow> nat \<Rightarrow> ping_reply) \<Rightarrow> string \<Rightarrow> int \<Rightarrow> rat \<Rightarrow> rat \<Rightarrow> probe_result"
where
  "priv_iter_ping skip_list ping server cnt timeout max_retries =
     (if server \<in> set skip_list then (Inr None, 0)
      else finish_ping server
             (ping_loop (ping server timeout) max_retries (nat cnt) 0 [] 0))"

text \<open>
  \<^verbatim>\<open>best-invidious-server.py\<close>: the same loop, reading the globals \<^verbatim>\<open>count\<close>,
  \<^verbatim>\<open>tolerance\<close> and \<^verbatim>\<open>timeout\<close>, and with no skip list.
\<close>

definition script_iter_ping ::
  "int \<Rightarrow> rat \<Rightarrow> rat \<Rightarrow> (string \<Rightarrow> rat \<Rightarrow> nat \<Rightarrow> ping_reply) \<Rightarrow> string \<Rightarrow> probe_result"
where
  "script_iter_ping cnt tolerance timeout ping server =
     finish_ping server (ping_loop (ping server timeout) tolerance (nat cnt) 0 [] 0)"

subsection \<open>Tallies of a run of pings\<close>

text \<open>
  Used to state what the loop does: among the calls \<open>a, \<dots>, b - 1\<close> of \<open>ping\<close>,
  the number of answers that fail the test \<^verbatim>\<open>if ms:\<close>, and the delays of those
  that pass it, in the order of the calls.
\<close>

definition failures :: "(nat \<Rightarrow> ping_reply) \<Rightarrow> nat \<Rightarrow> nat \<Rightarrow> int" where
  "failures ping a b = int (length (filter (\<lambda>k. \<not> truthy (ping k)) [a..<b]))"

definition successes :: "(nat \<Rightarrow> ping_reply) \<Rightarrow> nat \<Rightarrow> nat \<Rightarrow> rat list" where
  "successes ping a b = map (\<lambda>k. seconds (ping k)) (filter (\<lambda>k. truthy (ping k)) [a..<b])"

subsection \<open>Dictionaries\<close>

text \<open>
  A Python dictionary keeps its keys in insertion order; it is modelled by the list of
  its items.  \<^verbatim>\<open>d[k] = v\<close> on a key already present replaces the value and leaves
  the key where it is, and \<^verbatim>\<open>OrderedDict(items)\<close> sets the items one after the
  other.
\<close>

type_synonym ('k, 'v) dict = "('k \<times> 'v) list"

fun setitem :: "('k, 'v) dict \<Rightarrow> 'k \<Rightarrow> 'v \<Rightarrow> ('k, 'v) dict" where
  "setitem [] k v = [(k, v)]"
| "setitem ((k', v') # d) k v =
     (if k' = k then (k', v) # d else (k', v') # setitem d k v)"

definition OrderedDict :: "('k \<times> 'v) list \<Rightarrow> ('k, 'v) dict" where
  "OrderedDict its = foldl (\<lambda>d (k, v). setitem d k v) [] its"

subsection \<open>The ranking\<close>

text \<open>
  Lines 107 to 109 of \<^verbatim>\<open>app.py\<close>: the results that are not \<^verbatim>\<open>None\<close> are sorted
  as tuples \<^verbatim>\<open>(mean, server)\<close> (Python compares tuples lexicographically, and
  strings lexicographically by code point), each tuple is reversed, the server gets
  the prefix \<^verbatim>\<open>https://\<close>, and the pairs are put into an \<^verbatim>\<open>OrderedDict\<close>.
\<close>

definition ranking :: "(rat \<times> string) option list \<Rightarrow> (string, rat) dict" where
  "ranking results =
     (let sorted_results = map (\<lambda>x. (snd x, fst x)) (sort (List.map_filter id results));
          sorted_results = map (\<lambda>x. (''https://'' @ fst x, snd x)) sorted_results
      in OrderedDict sorted_results)"

text \<open>Line 40 of \<^verbatim>\<open>best-invidious-server.py\<close>: the same without the prefix.\<close>

definition script_ranking :: "(rat \<times> string) option list \<Rightarrow> (string, rat) dict" where
  "script_ranking results =
     OrderedDict (map (\<lambda>x. (snd x, fst x)) (sort (List.map_filter id results)))"

subsection \<open>The environment of one refresh\<close>

text \<open>
  What one call of \<^verbatim>\<open>_best_servers\<close> receives from outside:
  \<^item> \<open>instances\<close>: the outcome of lines 82 to 97, which fetch
    \<^verbatim>\<open>instances.json\<close> and filter it: the exception raised there, or the list
    \<^verbatim>\<open>servers\<close>;
  \<^item> \<open>net j server timeout k\<close>: the answer to the \<open>k\<close>-th call of
    \<^verbatim>\<open>ping(server, timeout=timeout)\<close> made by the \<open>j\<close>-th submitted future;
  \<^item> \<open>completion\<close>: the choices of the thread scheduler, read by
    \<open>as_completed\<close>.
\<close>

record world =
  instances :: "error + string list"
  net :: "nat \<Rightarrow> string \<Rightarrow> rat \<Rightarrow> nat \<Rightarrow> ping_reply"
  completion :: "nat list"

text \<open>
  \<^verbatim>\<open>concurrent.futures.as_completed(futures)\<close> yields every future once, in the
  order in which they finish.  The order is the scheduler's: its next choice \<open>p\<close>
  picks one of the futures still pending (the one at position \<open>p\<close> modulo their
  number; the first one when the choices are used up).
\<close>

function as_completed :: "nat list \<Rightarrow> 'a list \<Rightarrow> 'a list" where
  "as_completed sched [] = []"
| "as_completed sched (f # fs) =
     (let i = (case sched of [] \<Rightarrow> 0 | p # _ \<Rightarrow> p mod Suc (length fs))
      in (f # fs) ! i # as_completed (tl sched) (take i (f # fs) @ drop (Suc i) (f # fs)))"
  by pat_completeness auto
termination
proof (relation "measure (\<lambda>(sched, fs). length fs)")
  fix sched :: "nat list" and f :: 'a and fs :: "'a list" and i
  assume i: "i = (case sched of [] \<Rightarrow> 0 | p # _ \<Rightarrow> p mod Suc (length fs))"
  have "i \<le> length fs"
    unfolding i by (cases sched) (simp_all add: less_Suc_eq_le [symmetric])
  then show "((tl sched, take i (f # fs) @ drop (Suc i) (f # fs)), sched, f # fs)
               \<in> measure (\<lambda>(sched, fs). length fs)"
    by simp
qed simp

text \<open>
  \<^verbatim>\<open>results.append(future.result())\<close> for every future yielded:
  \<^verbatim>\<open>future.result()\<close> raises the exception of the future's call again.
\<close>

fun collect :: "(error + 'a) list \<Rightarrow> error + 'a list" where
  "collect [] = Inr []"
| "collect (Inl e # fs) = Inl e"
| "collect (Inr x # fs) =
     (case collect fs of Inl e \<Rightarrow> Inl e | Inr results \<Rightarrow> Inr (x # results))"

text \<open>
  Lines 99 and 103: one future per server, in the order of \<^verbatim>\<open>servers\<close>.  Each item
  is the tuple \<^verbatim>\<open>(server, count, max_retries, timeout)\<close>, and
  \<^verbatim>\<open>executor.submit(_iter_ping, *item)\<close> passes its components by position to
  \<^verbatim>\<open>_iter_ping(server, count, timeout, max_retries)\<close>: the third component, the
  \<^verbatim>\<open>max_retries\<close> of \<^verbatim>\<open>_best_servers\<close>, becomes the timeout of the pings, and the
  fourth, its \<^verbatim>\<open>timeout\<close>, becomes the number of failures that the prober
  tolerates.
\<close>

definition futures ::
  "string list \<Rightarrow> world \<Rightarrow> string list \<Rightarrow> int \<Rightarrow> int \<Rightarrow> rat \<Rightarrow> probe_result list"
where
  "futures skip_list w servers cnt max_retries timeout =
     (let items = map (\<lambda>server. (server, cnt, max_retries, timeout)) servers
      in map (\<lambda>(j, item).
                case item of (item0, item1, item2, item3) \<Rightarrow>
                  priv_iter_ping skip_list (net w j) item0 item1 (of_int item2) item3)
           (enumerate 0 items))"

subsection \<open>The state of the application and \<^verbatim>\<open>_best_servers\<close>\<close>

text \<open>
  A \<^verbatim>\<open>str\<close> is kept as its text, except the markdown page of lines 118 to 125,
  which is kept as the dictionary it is rendered from.
\<close>

datatype content = Text string | Markdown "(string, rat) dict"

datatype dict_or_str = Dict "(string, rat) dict" | Str content

text \<open>
  The state is the file \<^verbatim>\<open>.cache.json\<close> (\<open>None\<close> while it does not exist) and the
  attribute \<^verbatim>\<open>runner._best_servers\<close>.
\<close>

record app =
  cache_json :: "(string, rat) dict option"
  runner_best_servers :: dict_or_str

definition priv_best_servers ::
  "string list \<Rightarrow> int \<Rightarrow> int \<Rightarrow> rat \<Rightarrow> bool \<Rightarrow> world \<Rightarrow> app \<Rightarrow> (error + dict_or_str) \<times> app"
where
  "priv_best_servers skip_list cnt max_retries timeout return_markdown w st =
     (case instances w of
        Inl e \<Rightarrow> (Inl e, st)
      | Inr servers \<Rightarrow>
          (case collect (as_completed (completion w)
                  (map fst (futures skip_list w servers cnt max_retries timeout))) of
             Inl e \<Rightarrow> (Inl e, st)
           | Inr results \<Rightarrow>
               (let results = ranking results;
                    st = st\<lparr>cache_json := Some results\<rparr>
                in if \<not> return_markdown then (Inr (Dict results), st)
                   else (Inr (Str (Markdown results)), st))))"

text \<open>The script: \<^verbatim>\<open>best_servers(servers, count, tolerance, timeout)\<close>.\<close>

definition script_best_servers ::
  "world \<Rightarrow> string list \<Rightarrow> int \<Rightarrow> rat \<Rightarrow> rat \<Rightarrow> error + (string, rat) dict"
where
  "script_best_servers w servers cnt tolerance timeout =
     (case collect (as_completed (completion w)
             (map (\<lambda>(j, server). fst (script_iter_ping cnt tolerance timeout (net w j) server))
                (enumerate 0 servers))) of
        Inl e \<Rightarrow> Inl e
      | Inr results \<Rightarrow> Inr (script_ranking results))"

subsection \<open>The background task\<close>



text \<open>Line 184: the runner starts with a text in place of the dictionary.\<close>

definition runner_init :: dict_or_str where
  "runner_init = Str (Text ''Warming up... Try again in a minute...'')"

subsection \<open>The request handlers\<close>

datatype response =
    HTMLResponse content
  | RedirectResponse string
  | PrettyJSONResponse "(string, rat) dict"

text \<open>\<^verbatim>\<open>sub in s\<close> and \<^verbatim>\<open>s.split(sep)\<close> for a non-empty \<^verbatim>\<open>sep\<close>.\<close>

fun str_contains :: "string \<Rightarrow> string \<Rightarrow> bool" where
  "str_contains sub [] = (sub = [])"
| "str_contains sub (c # cs) = (take (length sub) (c # cs) = sub \<or> str_contains sub cs)"

fun split_go :: "string \<Rightarrow> nat \<Rightarrow> string \<Rightarrow> string \<Rightarrow> string list" where
  "split_go sep skip cur [] = [cur]"
| "split_go sep skip cur (c # cs) =
     (if skip > 0 then split_go sep (skip - 1) cur cs
      else if take (length sep) (c # cs) = sep then cur # split_go sep (length sep - 1) [] cs
      else split_go sep 0 (cur @ [c]) cs)"

definition str_split :: "string \<Rightarrow> string \<Rightarrow> string list" where
  "str_split s sep = split_go sep 0 [] s"

definition item1 :: "'a list \<Rightarrow> error + 'a" where
  "item1 xs = (case xs of _ # x # _ \<Rightarrow> Inr x | _ \<Rightarrow> Inl IndexError)"

text \<open>
  \<^verbatim>\<open>best_server(request, redirect)\<close>, given the value of
  \<^verbatim>\<open>runner._best_servers\<close> and \<^verbatim>\<open>str(request.url)\<close>.  A \<^verbatim>\<open>str\<close> has no
  method \<^verbatim>\<open>items\<close>; the list comprehension of line 145 is empty for an empty
  dictionary and \<^verbatim>\<open>[0]\<close> then raises.
\<close>

definition best_server :: "dict_or_str \<Rightarrow> string \<Rightarrow> bool \<Rightarrow> error + response" where
  "best_server rbs request_url redirect =
     (case rbs of
        Str s \<Rightarrow> Inl AttributeError
      | Dict d \<Rightarrow>
          (case filter (\<lambda>(k, v). v = min_list (map snd d)) d of
             [] \<Rightarrow> Inl IndexError
           | (b, _) # _ \<Rightarrow>
               if \<not> redirect then Inr (HTMLResponse (Text b))
               else
                 (case (if str_contains ''watch'' request_url
                        then (case item1 (str_split request_url ''/watch?v='') of
                                Inl e \<Rightarrow> Inl e
                              | Inr video_id \<Rightarrow> Inr (b @ ''/watch?v='' @ video_id))
                        else Inr b) of
                    Inl e \<Rightarrow> Inl e
                  | Inr b \<Rightarrow>
                     (if str_contains ''channel'' request_url
                      then (case item1 (str_split request_url ''/channel/'') of
                              Inl e \<Rightarrow> Inl e
                            | Inr channel_id \<Rightarrow>
                                Inr (RedirectResponse (b @ ''/channel/'' @ channel_id)))
                      else Inr (RedirectResponse b)))))"

text \<open>
  \<^verbatim>\<open>best_servers(count, max_retries, timeout, return_markdown)\<close>, the handler of
  \<^verbatim>\<open>/best_servers\<close>: line 169 calls \<^verbatim>\<open>_best_servers(return_markdown=True)\<close>, so
  the other three arguments of that call are its defaults.
\<close>

definition best_servers ::
  "string list \<Rightarrow> int \<Rightarrow> int \<Rightarrow> rat \<Rightarrow> bool \<Rightarrow> world \<Rightarrow> app \<Rightarrow> (error + response) \<times> app"
where
  "best_servers skip_list cnt max_retries timeout return_markdown w st =
     (if return_markdown then
        (case priv_best_servers skip_list 10 1 (2 / 10) True w st of
           (Inl e, st) \<Rightarrow> (Inl e, st)
         | (Inr (Str resp), st) \<Rightarrow> (Inr (HTMLResponse resp), st)
         | (Inr (Dict resp), st) \<Rightarrow> (Inr (HTMLResponse (Markdown resp)), st))
      else
        (case cache_json st of
           None \<Rightarrow> (Inl FileNotFoundError, st)
         | Some resp \<Rightarrow> (Inr (PrettyJSONResponse resp), st)))"

subsection \<open>Example inputs\<close>

text \<open>The application as it starts: no cache file, the runner holding its text.\<close>

definition app_init :: app where
  "app_init = \<lparr>cache_json = None, runner_best_servers = runner_init\<rparr>"

text \<open>A host that never answers.\<close>

definition silent :: "string \<Rightarrow> rat \<Rightarrow> nat \<Rightarrow> ping_reply" where
  "silent server timeout k = NoReply"

text \<open>
  Three servers: \<open>a\<close> answers in 1/20 s, \<open>b\<close> in 1/10 s, \<open>c\<close> never; the future
  of \<open>c\<close> finishes first.  \<open>world_cba\<close> submits them in the opposite order and
  has them finish in the order of submission.
\<close>

definition abc_net :: "nat \<Rightarrow> string \<Rightarrow> rat \<Rightarrow> nat \<Rightarrow> ping_reply" where
  "abc_net j server timeout k =
     (if server = ''a'' then Delay (1 / 20)
      else if server = ''b'' then Delay (1 / 10) else NoReply)"

definition world_abc :: world where
  "world_abc = \<lparr>instances = Inr [''a'', ''b'', ''c''], net = abc_net, completion = [2, 0]\<rparr>"

definition world_cba :: world where
  "world_cba = \<lparr>instances = Inr [''c'', ''b'', ''a''], net = abc_net, completion = []\<rparr>"

text \<open>Only \<open>b\<close> is listed.\<close>

definition world_b :: world where
  "world_b = \<lparr>instances = Inr [''b''], net = abc_net, completion = []\<rparr>"


text \<open>
  One server that answers the first ping of a future in 1/2 s, provided the timeout
  allows it, and no later ping.
\<close>

definition world_once :: world where
  "world_once =
     \<lparr>instances = Inr [''a''],
      net = (\<lambda>j server timeout k. if k = 0 \<and> 1 / 2 \<le> timeout then Delay (1 / 2) else NoReply),
      completion = []\<rparr>"

text \<open>
  A host whose second and fourth answers are missing, all others taking 1/4 s.
\<close>

definition flaky :: "string \<Rightarrow> rat \<Rightarrow> nat \<Rightarrow> ping_reply" where
  "flaky server timeout k = (if k = 1 \<or> k = 3 then NoReply else Delay (1 / 4))"



section \<open>Properties\<close>

subsection \<open>Facts about the loop of the prober\<close>

lemma failures_step:
  "a < b \<Longrightarrow> failures ping a b = (if truthy (ping a) then 0 else 1) + failures ping (Suc a) b"
  by (simp add: failures_def upt_conv_Cons)

lemma successes_step:
  "a < b \<Longrightarrow> successes ping a b =
     (if truthy (ping a) then [seconds (ping a)] else []) @ successes ping (Suc a) b"
  by (simp add: successes_def upt_conv_Cons)

lemma failures_empty [simp]: "failures ping a a = 0"
  by (simp add: failures_def)

lemma successes_empty [simp]: "successes ping a a = []"
  by (simp add: successes_def)

lemma failures_mono: "b \<le> c \<Longrightarrow> failures ping a b \<le> failures ping a c"
proof (induction c)
  case 0
  then show ?case by simp
next
  case (Suc c)
  show ?case
  proof (cases "b = Suc c")
    case True
    then show ?thesis by simp
  next
    case False
    with Suc.prems have "b \<le> c" by simp
    then have "failures ping a b \<le> failures ping a c" by (rule Suc.IH)
    also have "failures ping a c \<le> failures ping a (Suc c)"
      by (simp add: failures_def)
    finally show ?thesis .
  qed
qed

lemma ping_loop_completes:
  "(\<And>i. i < n \<Longrightarrow> \<not> truthy (ping (k + i)) \<Longrightarrow> of_int (down + failures ping k (Suc (k + i))) \<le> max_retries)
   \<Longrightarrow> ping_loop ping max_retries n k local_results down
       = (Some (local_results @ successes ping k (k + n)), k + n)"
proof (induction n arbitrary: k local_results down)
  case 0
  then show ?case by simp
next
  case (Suc n)
  show ?case
  proof (cases "truthy (ping k)")
    case True
    have "ping_loop ping max_retries n (Suc k) (local_results @ [seconds (ping k)]) down
          = (Some ((local_results @ [seconds (ping k)]) @ successes ping (Suc k) (Suc k + n)), Suc k + n)"
    proof (rule Suc.IH)
      fix i assume i: "i < n" "\<not> truthy (ping (Suc k + i))"
      from Suc.prems [of "Suc i"] i
      have "of_int (down + failures ping k (Suc (k + Suc i))) \<le> max_retries" by simp
      then show "of_int (down + failures ping (Suc k) (Suc (Suc k + i))) \<le> max_retries"
        using True by (simp add: failures_step [of k])
    qed
    then show ?thesis using True by (simp add: successes_step [of k])
  next
    case False
    from Suc.prems [of 0] False have d: "of_int (down + 1) \<le> max_retries"
      by (simp add: failures_step [of k])
    have "ping_loop ping max_retries n (Suc k) local_results (down + 1)
          = (Some (local_results @ successes ping (Suc k) (Suc k + n)), Suc k + n)"
    proof (rule Suc.IH)
      fix i assume i: "i < n" "\<not> truthy (ping (Suc k + i))"
      from Suc.prems [of "Suc i"] i
      have "of_int (down + failures ping k (Suc (k + Suc i))) \<le> max_retries" by simp
      then show "of_int (down + 1 + failures ping (Suc k) (Suc (Suc k + i))) \<le> max_retries"
        using False by (simp add: failures_step [of k])
    qed
    then show ?thesis using False d by (simp add: successes_step [of k])
  qed
qed

lemma ping_loop_aborts:
  "j < n \<Longrightarrow> \<not> truthy (ping (k + j)) \<Longrightarrow> max_retries < of_int (down + failures ping k (Suc (k + j)))
   \<Longrightarrow> (\<And>i. i < j \<Longrightarrow> \<not> truthy (ping (k + i)) \<Longrightarrow> of_int (down + failures ping k (Suc (k + i))) \<le> max_retries)
   \<Longrightarrow> ping_loop ping max_retries n k local_results down = (None, Suc (k + j))"
proof (induction n arbitrary: k j local_results down)
  case 0
  then show ?case by simp
next
  case (Suc n)
  show ?case
  proof (cases j)
    case 0
    with Suc.prems(2,3) show ?thesis by (simp add: failures_step [of k])
  next
    case (Suc j')
    show ?thesis
    proof (cases "truthy (ping k)")
      case True
      have "ping_loop ping max_retries n (Suc k) (local_results @ [seconds (ping k)]) down
            = (None, Suc (Suc k + j'))"
      proof (rule Suc.IH)
        show "j' < n" using Suc.prems(1) Suc by simp
        show "\<not> truthy (ping (Suc k + j'))" using Suc.prems(2) Suc by simp
        show "max_retries < of_int (down + failures ping (Suc k) (Suc (Suc k + j')))"
          using Suc.prems(3) Suc True by (simp add: failures_step [of k])
        fix i assume i: "i < j'" "\<not> truthy (ping (Suc k + i))"
        from Suc.prems(4) [of "Suc i"] i Suc
        have "of_int (down + failures ping k (Suc (k + Suc i))) \<le> max_retries" by simp
        then show "of_int (down + failures ping (Suc k) (Suc (Suc k + i))) \<le> max_retries"
          using True by (simp add: failures_step [of k])
      qed
      then show ?thesis using True Suc by simp
    next
      case False
      from Suc.prems(4) [of 0] False Suc have d: "of_int (down + 1) \<le> max_retries"
        by (simp add: failures_step [of k])
      have "ping_loop ping max_retries n (Suc k) local_results (down + 1)
            = (None, Suc (Suc k + j'))"
      proof (rule Suc.IH)
        show "j' < n" using Suc.prems(1) Suc by simp
        show "\<not> truthy (ping (Suc k + j'))" using Suc.prems(2) Suc by simp
        show "max_retries < of_int (down + 1 + failures ping (Suc k) (Suc (Suc k + j')))"
          using Suc.prems(3) Suc False by (simp add: failures_step [of k])
        fix i assume i: "i < j'" "\<not> truthy (ping (Suc k + i))"
        from Suc.prems(4) [of "Suc i"] i Suc
        have "of_int (down + failures ping k (Suc (k + Suc i))) \<le> max_retries" by simp
        then show "of_int (down + 1 + failures ping (Suc k) (Suc (Suc k + i))) \<le> max_retries"
          using False by (simp add: failures_step [of k])
      qed
      then show ?thesis using False d Suc by simp
    qed
  qed
qed

subsection \<open>Facts about dictionaries\<close>

lemma setitem_keys:
  "map fst (setitem d k v) = (if k \<in> fst ` set d then map fst d else map fst d @ [k])"
  by (induction d k v rule: setitem.induct) auto

lemma setitem_new: "k \<notin> fst ` set d \<Longrightarrow> setitem d k v = d @ [(k, v)]"
  by (induction d k v rule: setitem.induct) auto

lemma setitem_same: "(k, v) \<in> set d \<Longrightarrow> distinct (map fst d) \<Longrightarrow> setitem d k v = d"
  by (induction d k v rule: setitem.induct) (auto simp: rev_image_eqI)

lemma setitem_subset: "set (setitem d k v) \<subseteq> insert (k, v) (set d)"
  by (induction d k v rule: setitem.induct) auto

lemma setitem_distinct: "distinct (map fst d) \<Longrightarrow> distinct (map fst (setitem d k v))"
  by (simp add: setitem_keys)

lemma fold_setitem_distinct:
  "distinct (map fst d) \<Longrightarrow> distinct (map fst (foldl (\<lambda>d (k, v). setitem d k v) d its))"
  by (induction its arbitrary: d) (auto simp: setitem_distinct)

lemma fold_setitem_subset:
  "set (foldl (\<lambda>d (k, v). setitem d k v) d its) \<subseteq> set d \<union> set its"
proof (induction its arbitrary: d)
  case Nil
  then show ?case by simp
next
  case (Cons x its)
  obtain k v where x: "x = (k, v)" by (cases x)
  have "set (foldl (\<lambda>d (k, v). setitem d k v) (setitem d k v) its)
          \<subseteq> set (setitem d k v) \<union> set its"
    by (rule Cons.IH)
  also have "\<dots> \<subseteq> insert (k, v) (set d) \<union> set its"
    using setitem_subset [of d k v] by blast
  finally show ?case by (auto simp: x)
qed

lemma fold_setitem_keys:
  "fst ` set (foldl (\<lambda>d (k, v). setitem d k v) d its) = fst ` set d \<union> fst ` set its"
proof (induction its arbitrary: d)
  case Nil
  then show ?case by simp
next
  case (Cons x its)
  obtain k v where x: "x = (k, v)" by (cases x)
  have "fst ` set (setitem d k v) = insert k (fst ` set d)"
    using setitem_keys [of d k v] by (metis (no_types, lifting) Un_insert_right append_Nil2
        insert_absorb list.set_map list.simps(15) set_append)
  then show ?case by (simp add: x Cons.IH)
qed

lemma sorted_drop_middle:
  fixes xs :: "'a::linorder list"
  shows "sorted (xs @ y # ys) \<Longrightarrow> sorted (xs @ ys)"
  by (auto simp: sorted_append)

lemma fold_setitem_sorted:
  fixes d :: "('k, 'v::linorder) dict"
  assumes "distinct (map fst d)"
    and "sorted (map snd (d @ its))"
    and "\<And>k v v'. (k, v) \<in> set (d @ its) \<Longrightarrow> (k, v') \<in> set (d @ its) \<Longrightarrow> v = v'"
  shows "sorted (map snd (foldl (\<lambda>d (k, v). setitem d k v) d its))"
  using assms
proof (induction its arbitrary: d)
  case Nil
  then show ?case by simp
next
  case (Cons x its)
  obtain k v where x: "x = (k, v)" by (cases x)
  show ?case
  proof (cases "k \<in> fst ` set d")
    case True
    then obtain v' where v': "(k, v') \<in> set d" by auto
    with Cons.prems(3) [of k v' v] have "v' = v" by (simp add: x)
    with v' Cons.prems(1) have same: "setitem d k v = d" by (simp add: setitem_same)
    have "sorted (map snd (foldl (\<lambda>d (k, v). setitem d k v) d its))"
    proof (rule Cons.IH)
      show "distinct (map fst d)" by (rule Cons.prems(1))
      show "sorted (map snd (d @ its))"
        using Cons.prems(2) sorted_drop_middle [of "map snd d" "snd x" "map snd its"] by simp
      fix k v v' assume "(k, v) \<in> set (d @ its)" "(k, v') \<in> set (d @ its)"
      then show "v = v'" using Cons.prems(3) [of k v v'] by auto
    qed
    then show ?thesis by (simp add: x same)
  next
    case False
    then have new: "setitem d k v = d @ [(k, v)]" by (rule setitem_new)
    have "sorted (map snd (foldl (\<lambda>d (k, v). setitem d k v) (d @ [(k, v)]) its))"
    proof (rule Cons.IH)
      show "distinct (map fst (d @ [(k, v)]))" using Cons.prems(1) False by simp
      show "sorted (map snd ((d @ [(k, v)]) @ its))" using Cons.prems(2) by (simp add: x)
      fix k' u u' assume "(k', u) \<in> set ((d @ [(k, v)]) @ its)" "(k', u') \<in> set ((d @ [(k, v)]) @ its)"
      then show "u = u'" using Cons.prems(3) [of k' u u'] by (auto simp: x)
    qed
    then show ?thesis by (simp add: x new)
  qed
qed

lemma OrderedDict_distinct: "distinct (map fst (OrderedDict its))"
  unfolding OrderedDict_def by (rule fold_setitem_distinct) simp

lemma OrderedDict_subset: "set (OrderedDict its) \<subseteq> set its"
  unfolding OrderedDict_def using fold_setitem_subset [of "[]" its] by simp

lemma OrderedDict_keys: "fst ` set (OrderedDict its) = fst ` set its"
  unfolding OrderedDict_def by (simp add: fold_setitem_keys)

lemma OrderedDict_sorted:
  fixes its :: "('k \<times> 'v::linorder) list"
  assumes "sorted (map snd its)"
    and "\<And>k v v'. (k, v) \<in> set its \<Longrightarrow> (k, v') \<in> set its \<Longrightarrow> v = v'"
  shows "sorted (map snd (OrderedDict its))"
  unfolding OrderedDict_def using assms by (intro fold_setitem_sorted) auto

subsection \<open>Facts about the ranking\<close>

lemma set_map_filter_id: "set (List.map_filter id results) = {x. Some x \<in> set results}"
  by (induction results) (auto simp: List.map_filter_def)

lemma mset_map_filter_id:
  "mset (List.map_filter id results) = image_mset the (filter_mset (\<lambda>r. r \<noteq> None) (mset results))"
  by (induction results) (auto simp: List.map_filter_def)

lemma sorted_map_fst:
  fixes xs :: "('a::linorder \<times> 'b::linorder) list"
  shows "sorted xs \<Longrightarrow> sorted (map fst xs)"
  by (induction xs) (auto simp: less_eq_prod_def)


lemma script_ranking_distinct: "distinct (map fst (script_ranking results))"
  by (simp add: script_ranking_def OrderedDict_distinct)


lemma script_ranking_measured:
  "(k, m) \<in> set (script_ranking results) \<Longrightarrow> Some (m, k) \<in> set results"
proof -
  assume "(k, m) \<in> set (script_ranking results)"
  then have "(k, m) \<in> set (map (\<lambda>x. (snd x, fst x)) (sort (List.map_filter id results)))"
    using OrderedDict_subset unfolding script_ranking_def by blast
  then show ?thesis by (auto simp: set_map_filter_id)
qed

lemma ranking_keys:
  "fst ` set (ranking results) = {''https://'' @ s | s m. Some (m, s) \<in> set results}"
  unfolding ranking_def Let_def OrderedDict_keys
  by (auto simp: set_map_filter_id image_iff)


lemma script_ranking_sorted:
  assumes "\<And>s m m'. Some (m, s) \<in> set results \<Longrightarrow> Some (m', s) \<in> set results \<Longrightarrow> m = m'"
  shows "sorted (map snd (script_ranking results))"
  unfolding script_ranking_def
proof (rule OrderedDict_sorted)
  show "sorted (map snd (map (\<lambda>x. (snd x, fst x)) (sort (List.map_filter id results))))"
    using sorted_map_fst [of "sort (List.map_filter id results)"] by (simp add: comp_def)
  fix k v v'
  assume "(k, v) \<in> set (map (\<lambda>x. (snd x, fst x)) (sort (List.map_filter id results)))"
    and "(k, v') \<in> set (map (\<lambda>x. (snd x, fst x)) (sort (List.map_filter id results)))"
  then show "v = v'" using assms by (auto simp: set_map_filter_id)
qed

lemma sort_mset_cong:
  fixes xs ys :: "'a::linorder list"
  shows "mset xs = mset ys \<Longrightarrow> sort xs = sort ys"
  by (metis properties_for_sort sorted_sort mset_sort)

lemma sort_map_filter_mset:
  fixes results :: "'a::linorder option list"
  assumes "mset results = mset results'"
  shows "sort (List.map_filter id results) = sort (List.map_filter id results')"
proof (rule sort_mset_cong)
  show "mset (List.map_filter id results) = mset (List.map_filter id results')"
    using assms by (simp add: mset_map_filter_id)
qed

lemma ranking_mset: "mset results = mset results' \<Longrightarrow> ranking results = ranking results'"
  unfolding ranking_def using sort_map_filter_mset [of results results'] by simp

lemma script_ranking_mset:
  "mset results = mset results' \<Longrightarrow> script_ranking results = script_ranking results'"
  unfolding script_ranking_def using sort_map_filter_mset [of results results'] by simp

subsection \<open>Facts about the futures\<close>

lemma as_completed_mset: "mset (as_completed sched fs) = mset fs"
proof (induction sched fs rule: as_completed.induct)
  case (1 sched)
  then show ?case by simp
next
  case (2 sched f fs)
  define i where "i = (case sched of [] \<Rightarrow> 0 | p # _ \<Rightarrow> p mod Suc (length fs))"
  have i: "i < length (f # fs)"
    unfolding i_def by (cases sched) simp_all
  have "mset (as_completed (tl sched) (take i (f # fs) @ drop (Suc i) (f # fs)))
          = mset (take i (f # fs) @ drop (Suc i) (f # fs))"
    using "2.IH" [of i] by (simp add: i_def)
  then have "mset (as_completed sched (f # fs))
          = mset (take i (f # fs) @ (f # fs) ! i # drop (Suc i) (f # fs))"
    by (simp add: i_def Let_def del: take_Suc_Cons drop_Suc_Cons nth_Cons_Suc)
  also have "take i (f # fs) @ (f # fs) ! i # drop (Suc i) (f # fs) = f # fs"
    using i by (rule id_take_nth_drop [symmetric])
  finally show ?case .
qed

lemma collect_map_Inr: "collect (map Inr results) = Inr results"
  by (induction results) simp_all

lemma collect_InrD: "collect fs = Inr results \<Longrightarrow> fs = map Inr results"
  by (induction fs arbitrary: results rule: collect.induct) (auto split: sum.splits)

lemma collect_Inl: "collect fs = Inl e \<Longrightarrow> Inl e \<in> set fs"
  by (induction fs rule: collect.induct) (auto split: sum.splits)

subsection \<open>Facts about the prober and the refresh\<close>

lemma ping_loop_Some:
  "ping_loop ping max_retries n k local_results down = (Some lr, calls)
   \<Longrightarrow> lr = local_results @ successes ping k (k + n) \<and> calls = k + n"
proof (induction n arbitrary: k local_results down)
  case 0
  then show ?case by simp
next
  case (Suc n)
  show ?case
  proof (cases "truthy (ping k)")
    case True
    with Suc.prems
    have "ping_loop ping max_retries n (Suc k) (local_results @ [seconds (ping k)]) down
            = (Some lr, calls)" by simp
    from Suc.IH [OF this] True show ?thesis by (simp add: successes_step [of k])
  next
    case False
    with Suc.prems
    have "ping_loop ping max_retries n (Suc k) local_results (down + 1) = (Some lr, calls)"
      by (simp split: if_splits)
    from Suc.IH [OF this] False show ?thesis by (simp add: successes_step [of k])
  qed
qed

lemma finish_ping_Some:
  "finish_ping server r = (Inr (Some (m, s)), calls) \<Longrightarrow>
     s = server \<and> (\<exists>lr. r = (Some lr, calls) \<and> lr \<noteq> [] \<and> m = sum_list lr / of_nat (length lr))"
  by (auto simp: finish_ping_def mean_def split: prod.splits option.splits if_splits sum.splits)

lemma finish_ping_error: "fst (finish_ping server r) = Inl e \<Longrightarrow> e = StatisticsError"
  by (auto simp: finish_ping_def mean_def split: prod.splits option.splits if_splits sum.splits)

lemma priv_iter_ping_Some:
  assumes "priv_iter_ping skip_list ping server cnt timeout max_retries = (Inr (Some (m, s)), calls)"
  shows "s = server" and "server \<notin> set skip_list"
    and "successes (ping server timeout) 0 (nat cnt) \<noteq> []"
    and "m = sum_list (successes (ping server timeout) 0 (nat cnt))
               / of_nat (length (successes (ping server timeout) 0 (nat cnt)))"
    and "calls = nat cnt"
proof -
  from assms show notin: "server \<notin> set skip_list"
    by (auto simp: priv_iter_ping_def split: if_splits)
  with assms have fin: "finish_ping server
      (ping_loop (ping server timeout) max_retries (nat cnt) 0 [] 0) = (Inr (Some (m, s)), calls)"
    by (simp add: priv_iter_ping_def)
  from finish_ping_Some [OF fin] obtain lr where s: "s = server"
    and lr: "ping_loop (ping server timeout) max_retries (nat cnt) 0 [] 0 = (Some lr, calls)"
      "lr \<noteq> []" "m = sum_list lr / of_nat (length lr)"
    by blast
  from ping_loop_Some [OF lr(1)] have "lr = successes (ping server timeout) 0 (nat cnt)"
    and c: "calls = nat cnt" by simp_all
  with lr s show "s = server" "successes (ping server timeout) 0 (nat cnt) \<noteq> []"
    "m = sum_list (successes (ping server timeout) 0 (nat cnt))
               / of_nat (length (successes (ping server timeout) 0 (nat cnt)))"
    "calls = nat cnt"
    by simp_all
qed

lemma priv_iter_ping_error:
  "fst (priv_iter_ping skip_list ping server cnt timeout max_retries) = Inl e \<Longrightarrow> e = StatisticsError"
  by (auto simp: priv_iter_ping_def dest: finish_ping_error split: if_splits)

lemma script_iter_ping_eq:
  "script_iter_ping cnt tolerance timeout ping server
     = priv_iter_ping [] ping server cnt timeout tolerance"
  by (simp add: script_iter_ping_def priv_iter_ping_def)

lemma length_futures [simp]:
  "length (futures skip_list w servers cnt max_retries timeout) = length servers"
  by (simp add: futures_def)

lemma nth_futures:
  "i < length servers \<Longrightarrow>
     futures skip_list w servers cnt max_retries timeout ! i
       = priv_iter_ping skip_list (net w i) (servers ! i) cnt (of_int max_retries) timeout"
  by (simp add: futures_def nth_enumerate_eq)

lemma futures_completion [simp]:
  "futures skip_list (w\<lparr>completion := c\<rparr>) servers cnt max_retries timeout
     = futures skip_list w servers cnt max_retries timeout"
  by (simp add: futures_def)

lemma collected:
  assumes "collect (as_completed c fs) = Inr results"
  shows "mset (map Inr results) = mset fs"
proof -
  from assms have "as_completed c fs = map Inr results" by (rule collect_InrD)
  then show ?thesis using as_completed_mset [of c fs] by simp
qed

lemma collected_future:
  assumes "collect (as_completed c (map fst (futures skip_list w servers cnt max_retries timeout)))
             = Inr results"
    and "r \<in> set results"
  shows "\<exists>i<length servers.
           fst (priv_iter_ping skip_list (net w i) (servers ! i) cnt (of_int max_retries) timeout) = Inr r"
proof -
  let ?fs = "futures skip_list w servers cnt max_retries timeout"
  from collected [OF assms(1)] have "set (map Inr results) = set (map fst ?fs)"
    by (rule mset_eq_setD)
  with assms(2) have "Inr r \<in> set (map fst ?fs)" by auto
  then obtain i where "i < length ?fs" "map fst ?fs ! i = Inr r"
    by (metis in_set_conv_nth length_map)
  then show ?thesis by (auto simp: nth_futures)
qed

lemma priv_best_servers_Inr:
  assumes "priv_best_servers skip_list cnt max_retries timeout return_markdown w st = (Inr r, st')"
  shows "\<exists>servers results.
           instances w = Inr servers
         \<and> collect (as_completed (completion w)
               (map fst (futures skip_list w servers cnt max_retries timeout))) = Inr results
         \<and> st' = st\<lparr>cache_json := Some (ranking results)\<rparr>
         \<and> r = (if return_markdown then Str (Markdown (ranking results)) else Dict (ranking results))"
  using assms
  by (auto simp: priv_best_servers_def Let_def split: sum.splits if_splits)



lemma mset_map_Inr_cancel:
  fixes xs ys :: "'a list"
  assumes "mset (map (Inr :: 'a \<Rightarrow> 'e + 'a) xs) = mset (map Inr ys)"
  shows "mset xs = mset ys"
proof -
  from assms have "image_mset projr (mset (map (Inr :: 'a \<Rightarrow> 'e + 'a) xs))
                     = image_mset projr (mset (map (Inr :: 'a \<Rightarrow> 'e + 'a) ys))"
    by (rule arg_cong)
  then show ?thesis by (simp add: image_mset.compositionality comp_def)
qed

lemma collect_perm:
  assumes "mset fs = mset fs'"
    and "\<And>e. Inl e \<in> set fs \<Longrightarrow> e = e0"
  shows "(case collect fs of Inl e \<Rightarrow> collect fs' = Inl e0 \<and> e = e0
          | Inr results \<Rightarrow> \<exists>results'. collect fs' = Inr results' \<and> mset results = mset results')"
proof -
  from assms(1) have sets: "set fs = set fs'" by (rule mset_eq_setD)
  show ?thesis
  proof (cases "collect fs")
    case (Inl e)
    then have e: "Inl e \<in> set fs" by (rule collect_Inl)
    then have "e = e0" by (rule assms(2))
    moreover have "collect fs' = Inl e0"
    proof (cases "collect fs'")
      case (Inl e')
      then have "Inl e' \<in> set fs" using collect_Inl sets by blast
      with Inl show ?thesis using assms(2) by simp
    next
      case (Inr results')
      then have "fs' = map Inr results'" by (rule collect_InrD)
      with e sets show ?thesis by auto
    qed
    ultimately show ?thesis using Inl by simp
  next
    case (Inr results)
    then have fs: "fs = map Inr results" by (rule collect_InrD)
    have "\<exists>results'. collect fs' = Inr results'"
    proof (cases "collect fs'")
      case (Inl e')
      then have "Inl e' \<in> set fs" using collect_Inl sets by blast
      with fs show ?thesis by auto
    next
      case (Inr results')
      then show ?thesis by simp
    qed
    then obtain results' where r': "collect fs' = Inr results'" by blast
    then have fs': "fs' = map Inr results'" by (rule collect_InrD)
    from assms(1) have "mset results = mset results'"
      unfolding fs fs' by (rule mset_map_Inr_cancel)
    with r' Inr show ?thesis by simp
  qed
qed

lemma futures_errors:
  "Inl e \<in> set (as_completed c (map fst (futures skip_list w servers cnt max_retries timeout)))
   \<Longrightarrow> e = StatisticsError"
proof -
  let ?fs = "futures skip_list w servers cnt max_retries timeout"
  assume "Inl e \<in> set (as_completed c (map fst ?fs))"
  then have "Inl e \<in> set (map fst ?fs)"
    using as_completed_mset [of c "map fst ?fs"] by (metis mset_eq_setD)
  then obtain i where "i < length ?fs" "map fst ?fs ! i = Inl e"
    by (metis in_set_conv_nth length_map)
  then show ?thesis by (auto simp: nth_futures dest: priv_iter_ping_error)
qed

lemma all_fail_below_threshold:
  assumes "server \<notin> set skip_list"
    and "\<forall>k<nat cnt. \<not> truthy (ping server timeout k)"
    and "of_nat (nat cnt) \<le> max_retries"
  shows "priv_iter_ping skip_list ping server cnt timeout max_retries = (Inl StatisticsError, nat cnt)"
proof -
  let ?p = "ping server timeout"
  have le: "of_int (failures ?p 0 (Suc i)) \<le> max_retries" if "i < nat cnt" for i
  proof -
    have "failures ?p 0 (Suc i) \<le> int (Suc i)"
      unfolding failures_def using length_filter_le [of "\<lambda>k. \<not> truthy (?p k)" "[0..<Suc i]"]
      by simp
    also have "\<dots> \<le> int (nat cnt)" using that by linarith
    finally have "(of_int (failures ?p 0 (Suc i)) :: rat) \<le> of_int (int (nat cnt))"
      by (simp only: of_int_le_iff)
    also have "\<dots> = of_nat (nat cnt)" by (simp only: of_int_of_nat_eq)
    also note assms(3)
    finally show ?thesis .
  qed
  have "ping_loop ?p max_retries (nat cnt) 0 [] 0 = (Some ([] @ successes ?p 0 (0 + nat cnt)), 0 + nat cnt)"
    by (rule ping_loop_completes) (simp add: le)
  moreover have "successes ?p 0 (nat cnt) = []"
    using assms(2) by (simp add: successes_def filter_empty_conv)
  ultimately show ?thesis
    using assms(1) by (simp add: priv_iter_ping_def finish_ping_def mean_def)
qed

lemma collected_measured:
  assumes "collect (as_completed c (map fst (futures skip_list w servers cnt max_retries timeout)))
             = Inr results"
    and "Some (m, s) \<in> set results"
  shows "\<exists>i<length servers. s = servers ! i \<and> servers ! i \<notin> set skip_list
           \<and> fst (futures skip_list w servers cnt max_retries timeout ! i) = Inr (Some (m, servers ! i))"
proof -
  from collected_future [OF assms] obtain i where i: "i < length servers"
    and r: "fst (priv_iter_ping skip_list (net w i) (servers ! i) cnt (of_int max_retries) timeout)
              = Inr (Some (m, s))"
    by blast
  obtain calls where "priv_iter_ping skip_list (net w i) (servers ! i) cnt (of_int max_retries) timeout
              = (Inr (Some (m, s)), calls)"
    using r by (cases "priv_iter_ping skip_list (net w i) (servers ! i) cnt (of_int max_retries) timeout") simp
  from priv_iter_ping_Some(1,2) [OF this] have "s = servers ! i" "servers ! i \<notin> set skip_list" .
  with i r show ?thesis by (auto simp: nth_futures)
qed

lemma collected_nth:
  assumes "collect (as_completed c (map fst fs)) = Inr results"
    and "r \<in> set results"
  shows "\<exists>i<length fs. fst (fs ! i) = Inr r"
proof -
  from collected [OF assms(1)] have "set (map Inr results) = set (map fst fs)"
    by (rule mset_eq_setD)
  with assms(2) have "Inr r \<in> set (map fst fs)" by auto
  then obtain i where "i < length fs" "map fst fs ! i = Inr r"
    by (metis in_set_conv_nth length_map)
  then show ?thesis by auto
qed

lemma script_best_servers_Inr:
  assumes "script_best_servers w servers cnt tolerance timeout = Inr rk"
  shows "\<exists>results. rk = script_ranking results
           \<and> (\<forall>r \<in> set results. \<exists>i<length servers.
                 fst (script_iter_ping cnt tolerance timeout (net w i) (servers ! i)) = Inr r)"
proof -
  let ?fs = "map (\<lambda>(j, server). script_iter_ping cnt tolerance timeout (net w j) server)
               (enumerate 0 servers)"
  have fs: "map (\<lambda>(j, server). fst (script_iter_ping cnt tolerance timeout (net w j) server))
               (enumerate 0 servers) = map fst ?fs"
    unfolding map_map by (rule map_cong) auto
  from assms obtain results where
    c: "collect (as_completed (completion w) (map fst ?fs)) = Inr results"
    and rk: "rk = script_ranking results"
    unfolding script_best_servers_def fs by (auto split: sum.splits)
  have "\<exists>i<length servers.
          fst (script_iter_ping cnt tolerance timeout (net w i) (servers ! i)) = Inr r"
    if "r \<in> set results" for r
  proof -
    from collected_nth [OF c that] obtain i where i: "i < length ?fs" "fst (?fs ! i) = Inr r"
      by blast
    from i(1) have "i < length servers" by simp
    moreover from this i(2)
    have "fst (script_iter_ping cnt tolerance timeout (net w i) (servers ! i)) = Inr r"
      by (simp add: nth_enumerate_eq)
    ultimately show ?thesis by blast
  qed
  with rk show ?thesis by blast
qed

text \<open>The ranking of the script: the statement of claim C3 below, for \<^verbatim>\<open>best_servers\<close>.\<close>

lemma script_ranking_distinct_measured_sorted:
  assumes "script_best_servers w servers cnt tolerance timeout = Inr rk"
  shows "distinct (map fst rk)
          \<and> (\<forall>(k, m) \<in> set rk. \<exists>i<length servers. k = servers ! i
                \<and> fst (script_iter_ping cnt tolerance timeout (net w i) (servers ! i))
                    = Inr (Some (m, servers ! i)))
          \<and> ((\<forall>i<length servers. \<forall>j<length servers. \<forall>m m'.
                  servers ! i = servers ! j
                  \<and> fst (script_iter_ping cnt tolerance timeout (net w i) (servers ! i))
                      = Inr (Some (m, servers ! i))
                  \<and> fst (script_iter_ping cnt tolerance timeout (net w j) (servers ! j))
                      = Inr (Some (m', servers ! j))
                  \<longrightarrow> m = m')
                \<longrightarrow> sorted (map snd rk))"
proof -
  let ?f = "\<lambda>i. fst (script_iter_ping cnt tolerance timeout (net w i) (servers ! i))"
  from script_best_servers_Inr [OF assms] obtain results where
    rk: "rk = script_ranking results"
    and fut: "\<forall>r \<in> set results. \<exists>i<length servers. ?f i = Inr r"
    by blast
  have meas: "\<exists>i<length servers. s = servers ! i \<and> ?f i = Inr (Some (m, servers ! i))"
    if "Some (m, s) \<in> set results" for m s
  proof -
    from fut that obtain i where i: "i < length servers" "?f i = Inr (Some (m, s))" by blast
    then obtain calls where
      "priv_iter_ping [] (net w i) (servers ! i) cnt timeout tolerance = (Inr (Some (m, s)), calls)"
      unfolding script_iter_ping_eq
      by (cases "priv_iter_ping [] (net w i) (servers ! i) cnt timeout tolerance") simp
    from priv_iter_ping_Some(1) [OF this] have "s = servers ! i" .
    with i show ?thesis by blast
  qed
  have 2: "distinct (map fst (script_ranking results))" by (rule script_ranking_distinct)
  have 3: "\<forall>(k, m) \<in> set (script_ranking results). \<exists>i<length servers. k = servers ! i
                \<and> ?f i = Inr (Some (m, servers ! i))"
  proof (rule ballI, rule case_prodI2)
    fix p k m assume "p \<in> set (script_ranking results)" "p = (k, m)"
    then have "(k, m) \<in> set (script_ranking results)" by simp
    then have "Some (m, k) \<in> set results" by (rule script_ranking_measured)
    then show "\<exists>i<length servers. k = servers ! i \<and> ?f i = Inr (Some (m, servers ! i))"
      by (rule meas)
  qed
  have 4: "(\<forall>i<length servers. \<forall>j<length servers. \<forall>m m'.
                  servers ! i = servers ! j
                  \<and> ?f i = Inr (Some (m, servers ! i)) \<and> ?f j = Inr (Some (m', servers ! j))
                  \<longrightarrow> m = m')
                \<longrightarrow> sorted (map snd (script_ranking results))"
  proof
    assume h: "\<forall>i<length servers. \<forall>j<length servers. \<forall>m m'.
                  servers ! i = servers ! j
                  \<and> ?f i = Inr (Some (m, servers ! i)) \<and> ?f j = Inr (Some (m', servers ! j))
                  \<longrightarrow> m = m'"
    show "sorted (map snd (script_ranking results))"
    proof (rule script_ranking_sorted)
      fix s m m' assume a: "Some (m, s) \<in> set results" "Some (m', s) \<in> set results"
      from meas [OF a(1)] obtain i where
        i: "i < length servers" "s = servers ! i" "?f i = Inr (Some (m, servers ! i))" by blast
      from meas [OF a(2)] obtain j where
        j: "j < length servers" "s = servers ! j" "?f j = Inr (Some (m', servers ! j))" by blast
      from i(2) j(2) have "servers ! i = servers ! j" by (rule subst)
      with h i(1,3) j(1,3) show "m = m'" by blast
    qed
  qed
  from 2 3 4 show ?thesis unfolding rk by (intro conjI)
qed



lemma best_servers_ignores_arguments:
  "best_servers skip_list cnt max_retries timeout True w st
     = best_servers skip_list cnt' max_retries' timeout' True w st"
  by (simp add: best_servers_def)

text \<open>The futures of the two example runs over \<open>a\<close>, \<open>b\<close> and \<open>c\<close>.\<close>

lemma futures_abc:
  "futures [] world_abc [''a'', ''b'', ''c''] 5 1 (2 / 10)
     = [(Inr (Some (1 / 20, ''a'')), 5), (Inr (Some (1 / 10, ''b'')), 5), (Inr None, 1)]"
  by code_simp

lemma futures_cba:
  "futures [] world_cba [''c'', ''b'', ''a''] 5 1 (2 / 10)
     = [(Inr None, 1), (Inr (Some (1 / 10, ''b'')), 5), (Inr (Some (1 / 20, ''a'')), 5)]"
  by code_simp



section \<open>The claims\<close>

subsection \<open>The prober\<close>

text \<open>
  Claim C1 says that an endpoint whose \<open>count\<close> probes all fail while the tally of
  failures stays within \<open>max_retries\<close> is skipped, without a crash.  The code
  leaves the loop with an empty \<open>local_results\<close> and calls \<^verbatim>\<open>statistics.mean\<close>
  on it: two silent probes with a tolerance of five failures end in
  \<open>StatisticsError\<close>, in \<^verbatim>\<open>app.py\<close> and in the script alike.
\<close>

theorem all_probes_fail_below_threshold_raises:
  "priv_iter_ping [] silent ''a'' 2 (2 / 10) 5 = (Inl StatisticsError, 2)
   \<and> script_iter_ping 2 5 1 silent ''a'' = (Inl StatisticsError, 2)"
  by (simp add: priv_iter_ping_def script_iter_ping_def finish_ping_def mean_def silent_def
      numeral_2_eq_2)

text \<open>
  Claim C5: the tally of failed probes only grows, whatever successes lie between the
  failures.  When the probe number \<open>j\<close> (counted from 0) fails and is the first
  failed probe to bring the tally of the probes \<open>0, \<dots>, j\<close> above
  \<open>max_retries\<close>, the prober returns \<^verbatim>\<open>None\<close> after exactly \<open>j + 1\<close> pings,
  whatever the later answers would have been, and a \<^verbatim>\<open>None\<close> among the results
  adds nothing to the ranking.
\<close>

theorem too_many_failures_skipped:
  assumes "server \<notin> set skip_list"
    and "j < nat cnt"
    and "\<not> truthy (ping server timeout j)"
    and "max_retries < of_int (failures (ping server timeout) 0 (Suc j))"
    and "\<forall>i<j. \<not> truthy (ping server timeout i)
              \<longrightarrow> of_int (failures (ping server timeout) 0 (Suc i)) \<le> max_retries"
  shows "priv_iter_ping skip_list ping server cnt timeout max_retries = (Inr None, Suc j)
       \<and> script_iter_ping cnt max_retries timeout ping server = (Inr None, Suc j)
       \<and> ranking (results @ None # results') = ranking (results @ results')
       \<and> script_ranking (results @ None # results') = script_ranking (results @ results')"
proof -
  have "ping_loop (ping server timeout) max_retries (nat cnt) 0 [] 0 = (None, Suc (0 + j))"
    using assms(2-5) by (intro ping_loop_aborts) simp_all
  then have "priv_iter_ping skip_list ping server cnt timeout max_retries = (Inr None, Suc j)"
    and "script_iter_ping cnt max_retries timeout ping server = (Inr None, Suc j)"
    using assms(1) by (simp_all add: priv_iter_ping_def script_iter_ping_def finish_ping_def)
  moreover have "List.map_filter id (results @ None # results')
                   = List.map_filter id (results @ results')" for results results' :: "(rat \<times> string) option list"
    by (simp add: List.map_filter_def)
  then have "ranking (results @ None # results') = ranking (results @ results')"
    and "script_ranking (results @ None # results') = script_ranking (results @ results')"
    by (simp_all add: ranking_def script_ranking_def)
  ultimately show ?thesis by simp
qed

theorem too_many_failures_skipped_witness:
  "priv_iter_ping [] flaky ''a'' 10 (2 / 10) 1 = (Inr None, 4)
   \<and> script_iter_ping 10 1 (2 / 10) flaky ''a'' = (Inr None, 4)
   \<and> ranking ([Some (1, ''b'')] @ None # []) = ranking ([Some (1, ''b'')] @ [])
   \<and> script_ranking ([Some (1, ''b'')] @ None # []) = script_ranking ([Some (1, ''b'')] @ [])"
proof -
  have "''a'' \<notin> set ([] :: string list)" by simp
  moreover have "(3::nat) < nat 10" by simp
  moreover have "\<not> truthy (flaky ''a'' (2 / 10) 3)" by (simp add: flaky_def)
  moreover have "(1 :: rat) < of_int (failures (flaky ''a'' (2 / 10)) 0 (Suc 3))"
    by (simp add: failures_def flaky_def upt_rec)
  moreover have "\<forall>i<3. \<not> truthy (flaky ''a'' (2 / 10) i)
              \<longrightarrow> of_int (failures (flaky ''a'' (2 / 10)) 0 (Suc i)) \<le> (1 :: rat)"
  proof (intro allI impI)
    fix i :: nat assume "i < 3" "\<not> truthy (flaky ''a'' (2 / 10) i)"
    then have "i = 1" by (simp add: flaky_def split: if_splits)
    then show "of_int (failures (flaky ''a'' (2 / 10)) 0 (Suc i)) \<le> (1 :: rat)"
      by (simp add: failures_def flaky_def upt_rec)
  qed
  ultimately show ?thesis
    using too_many_failures_skipped [where server = "''a''" and skip_list = "[]" and j = 3
        and cnt = 10 and ping = flaky and timeout = "2 / 10" and max_retries = 1
        and results = "[Some (1, ''b'')]" and results' = "[]"]
    by simp
qed

text \<open>
  Claim C6: when the tally of failures over all \<open>count\<close> probes stays within
  \<open>max_retries\<close> and some probe succeeded, the prober makes all \<open>count\<close> pings and
  returns the pair of the server and the arithmetic mean of the delays of exactly the
  successful probes.
\<close>

theorem measured_mean_of_successes:
  assumes "server \<notin> set skip_list"
    and "of_int (failures (ping server timeout) 0 (nat cnt)) \<le> max_retries"
    and "successes (ping server timeout) 0 (nat cnt) \<noteq> []"
  shows "priv_iter_ping skip_list ping server cnt timeout max_retries
           = (Inr (Some (sum_list (successes (ping server timeout) 0 (nat cnt))
                           / of_nat (length (successes (ping server timeout) 0 (nat cnt))),
                         server)),
              nat cnt)
       \<and> script_iter_ping cnt max_retries timeout ping server
           = (Inr (Some (sum_list (successes (ping server timeout) 0 (nat cnt))
                           / of_nat (length (successes (ping server timeout) 0 (nat cnt))),
                         server)),
              nat cnt)"
proof -
  let ?p = "ping server timeout"
  have "ping_loop ?p max_retries (nat cnt) 0 [] 0
          = (Some ([] @ successes ?p 0 (0 + nat cnt)), 0 + nat cnt)"
  proof (rule ping_loop_completes)
    fix i assume "i < nat cnt"
    then have "failures ?p 0 (Suc (0 + i)) \<le> failures ?p 0 (nat cnt)"
      by (intro failures_mono) simp
    then have "(of_int (failures ?p 0 (Suc (0 + i))) :: rat) \<le> of_int (failures ?p 0 (nat cnt))"
      by (simp only: of_int_le_iff)
    also note assms(2)
    finally show "of_int (0 + failures ?p 0 (Suc (0 + i))) \<le> max_retries" by simp
  qed
  then show ?thesis
    using assms(1,3)
    by (simp add: priv_iter_ping_def script_iter_ping_def finish_ping_def mean_def)
qed

theorem measured_mean_of_successes_witness:
  "priv_iter_ping [] flaky ''a'' 3 (2 / 10) 1 = (Inr (Some (1 / 4, ''a'')), 3)
   \<and> script_iter_ping 3 1 (2 / 10) flaky ''a'' = (Inr (Some (1 / 4, ''a'')), 3)"
proof -
  have s: "successes (flaky ''a'' (2 / 10)) 0 (nat 3) = [1 / 4, 1 / 4]"
    by (simp add: successes_def flaky_def upt_rec)
  have "''a'' \<notin> set ([] :: string list)" by simp
  moreover have "of_int (failures (flaky ''a'' (2 / 10)) 0 (nat 3)) \<le> (1 :: rat)"
    by (simp add: failures_def flaky_def upt_rec)
  moreover have "successes (flaky ''a'' (2 / 10)) 0 (nat 3) \<noteq> []"
    using s by simp
  ultimately show ?thesis
    using measured_mean_of_successes [where server = "''a''" and skip_list = "[]" and ping = flaky
        and timeout = "2 / 10" and cnt = 3 and max_retries = 1] s
    by simp
qed




subsection \<open>The selector\<close>

text \<open>
  Claim C2 says that \<^verbatim>\<open>best_server\<close> answers "warming up" before the first refresh
  and on an empty ranking.  The code calls \<^verbatim>\<open>.items()\<close> on the text the runner
  starts with, which raises \<open>AttributeError\<close>, and takes element 0 of an empty
  list when the ranking is empty, which raises \<open>IndexError\<close>; this for every
  request URL and either value of \<open>redirect\<close>.
\<close>

theorem best_server_fails_while_warming_up:
  "best_server runner_init request_url redirect = Inl AttributeError
   \<and> best_server (Dict []) request_url redirect = Inl IndexError"
  by (simp add: best_server_def runner_init_def)

subsection \<open>The ranker\<close>




text \<open>
  Claim C4: two runs whose futures return the same results, as a multiset, publish
  and return the same ranking and leave the same state, whatever the orders \<open>c\<close>
  and \<open>c'\<close> in which the futures complete, and whatever the orders in which the
  servers were listed and submitted.
\<close>

theorem ranking_independent_of_order:
  assumes "instances w = Inr servers" and "instances w' = Inr servers'"
    and "mset (map fst (futures skip_list w servers cnt max_retries timeout))
           = mset (map fst (futures skip_list w' servers' cnt max_retries timeout))"
  shows "priv_best_servers skip_list cnt max_retries timeout return_markdown (w\<lparr>completion := c\<rparr>) st
           = priv_best_servers skip_list cnt max_retries timeout return_markdown (w'\<lparr>completion := c'\<rparr>) st"
proof -
  let ?fs = "as_completed c (map fst (futures skip_list w servers cnt max_retries timeout))"
  let ?fs' = "as_completed c' (map fst (futures skip_list w' servers' cnt max_retries timeout))"
  have m: "mset ?fs = mset ?fs'" using assms(3) by (simp only: as_completed_mset)
  have e: "\<And>e. Inl e \<in> set ?fs \<Longrightarrow> e = StatisticsError" by (rule futures_errors)
  have unf: "priv_best_servers skip_list cnt max_retries timeout return_markdown (w\<lparr>completion := c\<rparr>) st
      = (case collect ?fs of
             Inl e \<Rightarrow> (Inl e, st)
           | Inr results \<Rightarrow>
               (if \<not> return_markdown then (Inr (Dict (ranking results)), st\<lparr>cache_json := Some (ranking results)\<rparr>)
                   else (Inr (Str (Markdown (ranking results))), st\<lparr>cache_json := Some (ranking results)\<rparr>)))"
    using assms(1) by (simp add: priv_best_servers_def Let_def split: sum.splits)
  have unf': "priv_best_servers skip_list cnt max_retries timeout return_markdown (w'\<lparr>completion := c'\<rparr>) st
      = (case collect ?fs' of
             Inl e \<Rightarrow> (Inl e, st)
           | Inr results \<Rightarrow>
               (if \<not> return_markdown then (Inr (Dict (ranking results)), st\<lparr>cache_json := Some (ranking results)\<rparr>)
                   else (Inr (Str (Markdown (ranking results))), st\<lparr>cache_json := Some (ranking results)\<rparr>)))"
    using assms(2) by (simp add: priv_best_servers_def Let_def split: sum.splits)
  show ?thesis
  proof (cases "collect ?fs")
    case (Inl e)
    with collect_perm [OF m e] have "collect ?fs' = Inl StatisticsError" "e = StatisticsError"
      by simp_all
    with Inl show ?thesis unfolding unf unf' by simp
  next
    case (Inr results)
    with collect_perm [OF m e] obtain results' where
      r': "collect ?fs' = Inr results'" "mset results = mset results'" by auto
    from r'(2) have "ranking results = ranking results'" by (rule ranking_mset)
    with Inr r'(1) show ?thesis unfolding unf unf' by simp
  qed
qed

theorem ranking_independent_of_order_witness:
  "instances world_abc = Inr [''a'', ''b'', ''c'']
   \<and> instances world_cba = Inr [''c'', ''b'', ''a'']
   \<and> mset (map fst (futures [] world_abc [''a'', ''b'', ''c''] 5 1 (2 / 10)))
       = mset (map fst (futures [] world_cba [''c'', ''b'', ''a''] 5 1 (2 / 10)))
   \<and> priv_best_servers [] 5 1 (2 / 10) False (world_abc\<lparr>completion := [2, 0]\<rparr>) app_init
       = priv_best_servers [] 5 1 (2 / 10) False (world_cba\<lparr>completion := [1]\<rparr>) app_init"
proof -
  have 1: "instances world_abc = Inr [''a'', ''b'', ''c'']" by (simp add: world_abc_def)
  have 2: "instances world_cba = Inr [''c'', ''b'', ''a'']" by (simp add: world_cba_def)
  have 3: "mset (map fst (futures [] world_abc [''a'', ''b'', ''c''] 5 1 (2 / 10)))
       = mset (map fst (futures [] world_cba [''c'', ''b'', ''a''] 5 1 (2 / 10)))"
    unfolding futures_abc futures_cba by simp
  from ranking_independent_of_order [OF 1 2 3, of False "[2, 0]" app_init "[1]"] 1 2 3
  show ?thesis by (intro conjI)
qed

text \<open>
  Claim C7, as amended.  For a server on the skip list, \<^verbatim>\<open>_iter_ping\<close> returns
  \<^verbatim>\<open>None\<close> without a single ping; a refresh still submits one future per listed
  server, the excluded ones included, and every future submitted for that server
  returns \<^verbatim>\<open>None\<close> after no ping, in every list of candidates; and the ranking
  that a refresh writes has no entry for it.
\<close>

theorem skip_list_never_pinged_nor_ranked:
  assumes "server \<in> set skip_list"
  shows "priv_iter_ping skip_list ping server cnt' timeout' max_retries' = (Inr None, 0)
       \<and> length (futures skip_list w servers cnt max_retries timeout) = length servers
       \<and> (\<forall>i<length servers. servers ! i = server
             \<longrightarrow> futures skip_list w servers cnt max_retries timeout ! i = (Inr None, 0))
       \<and> (priv_best_servers skip_list cnt max_retries timeout return_markdown w st = (Inr r, st')
             \<longrightarrow> (\<exists>rk. cache_json st' = Some rk \<and> ''https://'' @ server \<notin> fst ` set rk))"
proof -
  have 1: "priv_iter_ping skip_list ping server cnt' timeout' max_retries' = (Inr None, 0)"
    for ping cnt' timeout' max_retries'
    using assms by (simp add: priv_iter_ping_def)
  have 2: "\<forall>i<length servers. servers ! i = server
             \<longrightarrow> futures skip_list w servers cnt max_retries timeout ! i = (Inr None, 0)"
    using 1 by (simp add: nth_futures)
  have 3: "\<exists>rk. cache_json st' = Some rk \<and> ''https://'' @ server \<notin> fst ` set rk"
    if p: "priv_best_servers skip_list cnt max_retries timeout return_markdown w st = (Inr r, st')"
  proof -
    from priv_best_servers_Inr [OF p] obtain servers' results where
      c: "collect (as_completed (completion w)
               (map fst (futures skip_list w servers' cnt max_retries timeout))) = Inr results"
      and st': "st' = st\<lparr>cache_json := Some (ranking results)\<rparr>"
      by blast
    have "''https://'' @ server \<notin> fst ` set (ranking results)"
    proof
      assume "''https://'' @ server \<in> fst ` set (ranking results)"
      then obtain m where "Some (m, server) \<in> set results"
        unfolding ranking_keys by auto
      from collected_measured [OF c this] assms show False by auto
    qed
    with st' show ?thesis by simp
  qed
  from 1 2 3 show ?thesis by (simp only: length_futures) blast
qed

theorem skip_list_never_pinged_nor_ranked_witness:
  "''b'' \<in> set [''b'']
   \<and> priv_iter_ping [''b''] (net world_abc 1) ''b'' 5 1 (2 / 10) = (Inr None, 0)
   \<and> length (futures [''b''] world_abc [''a'', ''b'', ''c''] 5 1 (2 / 10)) = 3
   \<and> futures [''b''] world_abc [''a'', ''b'', ''c''] 5 1 (2 / 10) ! 1 = (Inr None, 0)
   \<and> (\<exists>rk. cache_json \<lparr>cache_json = Some [(''https://a'', 1 / 20)], runner_best_servers = runner_init\<rparr>
              = Some rk \<and> ''https://b'' \<notin> fst ` set rk)"
proof -
  have 0: "''b'' \<in> set [''b'']" by simp
  have e: "priv_best_servers [''b''] 5 1 (2 / 10) False world_abc app_init
     = (Inr (Dict [(''https://a'', 1 / 20)]),
        \<lparr>cache_json = Some [(''https://a'', 1 / 20)], runner_best_servers = runner_init\<rparr>)"
    by code_simp
  note t = skip_list_never_pinged_nor_ranked [OF 0, where ping = "net world_abc 1" and cnt' = 5
      and timeout' = 1 and max_retries' = "2 / 10" and servers = "[''a'', ''b'', ''c'']"
      and w = world_abc and cnt = 5 and max_retries = 1 and timeout = "2 / 10"
      and return_markdown = False and st = app_init and r = "Dict [(''https://a'', 1 / 20)]"
      and st' = "\<lparr>cache_json = Some [(''https://a'', 1 / 20)], runner_best_servers = runner_init\<rparr>"]
  from t have 1: "priv_iter_ping [''b''] (net world_abc 1) ''b'' 5 1 (2 / 10) = (Inr None, 0)"
    by (rule conjunct1)
  from t have 2: "length (futures [''b''] world_abc [''a'', ''b'', ''c''] 5 1 (2 / 10)) = 3"
    by simp
  from t have "\<forall>i<length [''a'', ''b'', ''c'']. [''a'', ''b'', ''c''] ! i = ''b''
             \<longrightarrow> futures [''b''] world_abc [''a'', ''b'', ''c''] 5 1 (2 / 10) ! i = (Inr None, 0)"
    by (rule conjunct1 [OF conjunct2 [OF conjunct2]])
  then have 3: "futures [''b''] world_abc [''a'', ''b'', ''c''] 5 1 (2 / 10) ! 1 = (Inr None, 0)"
    by simp
  from t e have 4: "\<exists>rk. cache_json \<lparr>cache_json = Some [(''https://a'', 1 / 20)], runner_best_servers = runner_init\<rparr>
              = Some rk \<and> ''https://b'' \<notin> fst ` set rk"
    by simp
  from 0 1 2 3 4 show ?thesis by (intro conjI)
qed

text \<open>
  The claim C7 as stated has no prober invocation for an excluded endpoint.  The skip
  list is read inside \<^verbatim>\<open>_iter_ping\<close>, not before the dispatch: with \<open>b\<close> on the
  skip list and alone in the list of servers, line 103 submits one future, the call
  of \<^verbatim>\<open>_iter_ping\<close> for \<open>b\<close>, which returns at once.
\<close>

theorem skip_list_server_still_submitted:
  "futures [''b''] world_b [''b''] 10 1 (2 / 10)
     = [priv_iter_ping [''b''] (net world_b 0) ''b'' 10 1 (2 / 10)]
   \<and> priv_iter_ping [''b''] (net world_b 0) ''b'' 10 1 (2 / 10) = (Inr None, 0)"
  by (simp add: futures_def priv_iter_ping_def)

subsection \<open>The refresh loop\<close>




subsection \<open>The handler of the full ranking\<close>

text \<open>
  Claim C9 says that a manual refresh through \<^verbatim>\<open>/best_servers\<close> probes with the
  parameters of the request.  The handler takes \<^verbatim>\<open>count\<close>, \<^verbatim>\<open>max_retries\<close> and
  \<^verbatim>\<open>timeout\<close> and passes none of them on (see
  \<open>best_servers_ignores_arguments\<close>).  A request with \<^verbatim>\<open>count=1\<close>,
  \<^verbatim>\<open>max_retries=5\<close>, \<^verbatim>\<open>timeout=1\<close> for a server that answers one ping in 1/2 s
  is refreshed with the defaults 10, 1 and 0.2 and finds the server unresponsive;
  \<^verbatim>\<open>_best_servers\<close> called with the requested values measures it at 1/2 s.
\<close>

theorem best_servers_handler_uses_defaults:
  "best_servers [] 1 5 1 True world_once app_init
     = (Inr (HTMLResponse (Markdown [])),
        \<lparr>cache_json = Some [], runner_best_servers = runner_init\<rparr>)
   \<and> priv_best_servers [] 1 5 1 True world_once app_init
     = (Inr (Str (Markdown [(''https://a'', 1 / 2)])),
        \<lparr>cache_json = Some [(''https://a'', 1 / 2)], runner_best_servers = runner_init\<rparr>)"
proof
  show "best_servers [] 1 5 1 True world_once app_init
     = (Inr (HTMLResponse (Markdown [])),
        \<lparr>cache_json = Some [], runner_best_servers = runner_init\<rparr>)"
    by code_simp
  show "priv_best_servers [] 1 5 1 True world_once app_init
     = (Inr (Str (Markdown [(''https://a'', 1 / 2)])),
        \<lparr>cache_json = Some [(''https://a'', 1 / 2)], runner_best_servers = runner_init\<rparr>)"
    by code_simp
qed

end
